theory Spec2Isabelle
  imports Main "HOL-Library.Word" "HOL-Library.Sublist"
begin

section \<open>Operations and operation chains\<close>

text \<open>
  The optimizer of \<^verbatim>\<open>src/core/OpOptimizers.cpp\<close> sees an operation only through
  three virtual queries of the class \<^verbatim>\<open>Op\<close>: \<^verbatim>\<open>isNoOp()\<close>,
  \<^verbatim>\<open>isSameType(op)\<close> and \<^verbatim>\<open>isInverse(op)\<close>. The class itself lives in
  \<^verbatim>\<open>Op.h\<close>; what a query answers is up to the subclass. A query is therefore
  modelled as a function that reads and returns a state \<open>'s\<close> (whatever the
  implementation of the operations keeps besides the chain), so that an answer may
  differ from one call to the next. The type \<open>'op\<close> stands for the operation a chain
  entry (an \<^verbatim>\<open>OpRcPtr\<close>) points to, and a chain (\<^verbatim>\<open>OpRcPtrVec\<close>) is a list.
\<close>

record ('op, 's) OpInterface =
  isNoOp :: "'op \<Rightarrow> 's \<Rightarrow> bool \<times> 's"
  isSameType :: "'op \<Rightarrow> 'op \<Rightarrow> 's \<Rightarrow> bool \<times> 's"
  isInverse :: "'op \<Rightarrow> 'op \<Rightarrow> 's \<Rightarrow> bool \<times> 's"

text \<open>
  Operations whose queries are functions of the operations alone: the answers neither
  depend on the state nor change it.
\<close>

definition pure_ops ::
  "('op \<Rightarrow> bool) \<Rightarrow> ('op \<Rightarrow> 'op \<Rightarrow> bool) \<Rightarrow> ('op \<Rightarrow> 'op \<Rightarrow> bool) \<Rightarrow> ('op, 's) OpInterface" where
  "pure_ops noop same inver =
     \<lparr> isNoOp = (\<lambda>a s. (noop a, s)),
       isSameType = (\<lambda>a b s. (same a b, s)),
       isInverse = (\<lambda>a b s. (inver a b, s)) \<rparr>"

text \<open>
  Reading a vector outside its bounds, or dereferencing an iterator past the end, has
  no defined behaviour in C++; the model makes it a fault.
\<close>

datatype fault = OutOfRange

text \<open>\<^verbatim>\<open>opVec[i]\<close> with a signed index.\<close>

definition elem_at :: "'a list \<Rightarrow> int \<Rightarrow> 'a option" where
  "elem_at v i = (if 0 \<le> i \<and> i < int (length v) then Some (v ! nat i) else None)"

text \<open>\<^verbatim>\<open>v.erase(v.begin() + first, v.begin() + lst)\<close>: the entries in \<open>[first, lst)\<close> go.\<close>

definition erase :: "'a list \<Rightarrow> nat \<Rightarrow> nat \<Rightarrow> 'a list" where
  "erase v first lst = take first v @ drop lst v"

definition MAX_OPTIMIZATION_PASSES :: int where
  "MAX_OPTIMIZATION_PASSES = 8"

section \<open>RemoveNoOps\<close>

text \<open>
  The iterator is its distance from \<^verbatim>\<open>opVec.begin()\<close>; \<^verbatim>\<open>opVec.end()\<close> is
  \<open>length opVec\<close>. \<^verbatim>\<open>erase(iter)\<close> returns the iterator at the same distance.
  The result is the chain, the count and the state of the operations.
\<close>

function RemoveNoOps_loop ::
  "('op, 's) OpInterface \<Rightarrow> 'op list \<Rightarrow> nat \<Rightarrow> int \<Rightarrow> 's \<Rightarrow> fault + ('op list \<times> int \<times> 's)" where
  "RemoveNoOps_loop C opVec iter cnt s =
     (if iter \<noteq> length opVec then
        (if length opVec < iter then Inl OutOfRange
         else
           (case isNoOp C (opVec ! iter) s of
              (True, s') \<Rightarrow> RemoveNoOps_loop C (erase opVec iter (iter + 1)) iter (cnt + 1) s'
            | (False, s') \<Rightarrow> RemoveNoOps_loop C opVec (iter + 1) cnt s'))
      else Inr (opVec, cnt, s))"
  by pat_completeness auto
termination
  by (relation "measure (\<lambda>(C, opVec, iter, cnt, s). length opVec - iter)")
     (auto simp: erase_def)

declare RemoveNoOps_loop.simps [simp del]

definition RemoveNoOps ::
  "('op, 's) OpInterface \<Rightarrow> 'op list \<Rightarrow> 's \<Rightarrow> fault + ('op list \<times> int \<times> 's)" where
  "RemoveNoOps C opVec s = RemoveNoOps_loop C opVec 0 0 s"

section \<open>RemoveInverseOps\<close>

text \<open>
  The loop bound \<^verbatim>\<open>static_cast<int>(opVec.size()-1)\<close>: the subtraction is done in
  the 64-bit unsigned \<^verbatim>\<open>size_type\<close>, where \<open>0 - 1\<close> is \<open>2 ^ 64 - 1\<close>; the cast keeps the
  low 32 bits and reads them in two's complement, as the compilers do and as C++20
  defines the conversion.
\<close>

definition size_minus_one :: "'a list \<Rightarrow> int" where
  "size_minus_one opVec =
     sint (ucast (word_of_nat (length opVec) - 1 :: 64 word) :: 32 word)"

text \<open>
  \<^verbatim>\<open>first->isSameType(second) && first->isInverse(second)\<close>: the second query is
  made only when the first answered true.
\<close>

definition sameTypeAndInverse ::
  "('op, 's) OpInterface \<Rightarrow> 'op \<Rightarrow> 'op \<Rightarrow> 's \<Rightarrow> bool \<times> 's" where
  "sameTypeAndInverse C first second s =
     (case isSameType C first second s of
        (True, s1) \<Rightarrow> isInverse C first second s1
      | (False, s1) \<Rightarrow> (False, s1))"

text \<open>
  The cursor \<^verbatim>\<open>firstindex\<close> and \<^verbatim>\<open>count\<close> are C++ \<^verbatim>\<open>int\<close>s, as are the count
  of \<^verbatim>\<open>RemoveNoOps\<close> and the totals of \<^verbatim>\<open>OptimizeOpVec\<close>. They are integers here.
  The cursor stays below the bound of its loop, which is an \<^verbatim>\<open>int\<close>. A count of removed
  operations is at most the length of the chain, so on a chain of fewer than \<open>2 ^ 31\<close>
  operations every counter stays within the 32 bits of an \<^verbatim>\<open>int\<close>; on a longer chain
  \<^verbatim>\<open>++count\<close> could overflow, which C++ leaves undefined, and what is proved of the
  counts of removed identity operations is proved for chains below that length.
\<close>

function RemoveInverseOps_loop ::
  "('op, 's) OpInterface \<Rightarrow> 'op list \<Rightarrow> int \<Rightarrow> int \<Rightarrow> 's \<Rightarrow> fault + ('op list \<times> int \<times> 's)" where
  "RemoveInverseOps_loop C opVec firstindex cnt s =
     (if firstindex < size_minus_one opVec then
        (case elem_at opVec firstindex of
           None \<Rightarrow> Inl OutOfRange
         | Some first \<Rightarrow>
             (case elem_at opVec (firstindex + 1) of
                None \<Rightarrow> Inl OutOfRange
              | Some second \<Rightarrow>
                  (case sameTypeAndInverse C first second s of
                     (True, s') \<Rightarrow>
                       RemoveInverseOps_loop C
                         (erase opVec (nat firstindex) (nat (firstindex + 2)))
                         (max 0 (firstindex - 1)) (cnt + 1) s'
                   | (False, s') \<Rightarrow>
                       RemoveInverseOps_loop C opVec (firstindex + 1) cnt s')))
      else Inr (opVec, cnt, s))"
  by pat_completeness auto
termination
  by (relation "measure (\<lambda>(C, opVec, firstindex, cnt, s). nat (2 * int (length opVec) - firstindex))")
     (auto simp: erase_def elem_at_def split: if_splits)

declare RemoveInverseOps_loop.simps [simp del]

definition RemoveInverseOps ::
  "('op, 's) OpInterface \<Rightarrow> 'op list \<Rightarrow> 's \<Rightarrow> fault + ('op list \<times> int \<times> 's)" where
  "RemoveInverseOps C opVec s = RemoveInverseOps_loop C opVec 0 0 s"

text \<open>
  The values \<^verbatim>\<open>firstindex\<close> takes, one for each evaluation of the loop condition,
  in order. It follows the loop above step by step and only records the cursor.
\<close>

function RemoveInverseOps_cursors ::
  "('op, 's) OpInterface \<Rightarrow> 'op list \<Rightarrow> int \<Rightarrow> 's \<Rightarrow> int list" where
  "RemoveInverseOps_cursors C opVec firstindex s =
     firstindex #
     (if firstindex < size_minus_one opVec then
        (case elem_at opVec firstindex of
           None \<Rightarrow> []
         | Some first \<Rightarrow>
             (case elem_at opVec (firstindex + 1) of
                None \<Rightarrow> []
              | Some second \<Rightarrow>
                  (case sameTypeAndInverse C first second s of
                     (True, s') \<Rightarrow>
                       RemoveInverseOps_cursors C
                         (erase opVec (nat firstindex) (nat (firstindex + 2)))
                         (max 0 (firstindex - 1)) s'
                   | (False, s') \<Rightarrow>
                       RemoveInverseOps_cursors C opVec (firstindex + 1) s')))
      else [])"
  by pat_completeness auto
termination
  by (relation "measure (\<lambda>(C, opVec, firstindex, s). nat (2 * int (length opVec) - firstindex))")
     (auto simp: erase_def elem_at_def split: if_splits)

declare RemoveInverseOps_cursors.simps [simp del]

section \<open>OptimizeOpVec\<close>

text \<open>
  The pass loop. Its state is the chain, \<^verbatim>\<open>total_noops\<close>, \<^verbatim>\<open>total_inverseops\<close>,
  \<^verbatim>\<open>passes\<close> and the state of the operations; the result is their values when the
  loop is left, by \<^verbatim>\<open>break\<close> or by its condition.
\<close>

function OptimizeOpVec_loop ::
  "('op, 's) OpInterface \<Rightarrow> 'op list \<Rightarrow> int \<Rightarrow> int \<Rightarrow> int \<Rightarrow> 's
     \<Rightarrow> fault + ('op list \<times> int \<times> int \<times> int \<times> 's)" where
  "OptimizeOpVec_loop C ops total_noops total_inverseops passes s =
     (if passes \<le> MAX_OPTIMIZATION_PASSES then
        (case RemoveNoOps C ops s of
           Inl e \<Rightarrow> Inl e
         | Inr (ops1, noops, s1) \<Rightarrow>
             (case RemoveInverseOps C ops1 s1 of
                Inl e \<Rightarrow> Inl e
              | Inr (ops2, inverseops, s2) \<Rightarrow>
                  if noops = 0 \<and> inverseops = 0
                  then Inr (ops2, total_noops, total_inverseops, passes, s2)
                  else OptimizeOpVec_loop C ops2 (total_noops + noops)
                         (total_inverseops + inverseops) (passes + 1) s2))
      else Inr (ops, total_noops, total_inverseops, passes, s))"
  by pat_completeness auto
termination
  by (relation "measure (\<lambda>(C, ops, tn, ti, passes, s). nat (MAX_OPTIMIZATION_PASSES + 1 - passes))")
     auto

declare OptimizeOpVec_loop.simps [simp del]

text \<open>
  What \<^verbatim>\<open>LogDebug\<close> is handed. \<^verbatim>\<open>SerializeOpVec\<close> and the logging backend are
  outside the file: a serialized chain is kept as the chain, and the numbers a message
  prints are kept as numbers.
\<close>

datatype 'op log_msg =
    OptimizingOpVec
  | Serialized "'op list"
  | MaxPassesReached int
  | Optimized nat nat int int int "'op list"

text \<open>
  \<^verbatim>\<open>IsDebugLoggingEnabled()\<close> is the parameter \<open>debug\<close>. The function returns
  nothing in C++; here it returns the chain it leaves, the messages it logged and the
  state of the operations.
\<close>

definition OptimizeOpVec ::
  "('op, 's) OpInterface \<Rightarrow> bool \<Rightarrow> 'op list \<Rightarrow> 's
     \<Rightarrow> fault + ('op list \<times> 'op log_msg list \<times> 's)" where
  "OptimizeOpVec C debug ops s =
     (if ops = [] then Inr (ops, [], s)
      else
        let log0 = (if debug then [OptimizingOpVec, Serialized ops] else []);
            originalSize = length ops
        in
          (case OptimizeOpVec_loop C ops 0 0 0 s of
             Inl e \<Rightarrow> Inl e
           | Inr (ops', total_noops, total_inverseops, passes, s') \<Rightarrow>
               let finalSize = length ops';
                   log1 = (if passes = MAX_OPTIMIZATION_PASSES
                           then log0 @ [MaxPassesReached passes] else log0);
                   log2 = (if debug
                           then log1 @ [Optimized originalSize finalSize passes
                                          total_noops total_inverseops ops']
                           else log1)
               in Inr (ops', log2, s')))"

section \<open>Reference descriptions and sample operations\<close>

text \<open>
  One pass of identity queries over a chain, left to right, each operation asked once:
  the answers and the state afterwards. \<open>kept_ops\<close> keeps the operations whose answer
  was false.
\<close>

fun isNoOp_answers :: "('op, 's) OpInterface \<Rightarrow> 'op list \<Rightarrow> 's \<Rightarrow> bool list \<times> 's" where
  "isNoOp_answers C [] s = ([], s)"
| "isNoOp_answers C (a # v) s =
     (case isNoOp C a s of (b, s1) \<Rightarrow>
        (case isNoOp_answers C v s1 of (bs, s') \<Rightarrow> (b # bs, s')))"

definition kept_ops :: "'op list \<Rightarrow> bool list \<Rightarrow> 'op list" where
  "kept_ops v bs = map fst (filter (\<lambda>p. \<not> snd p) (zip v bs))"

text \<open>
  Inverse-pair cancellation as section 4.2 of the specification words it, over any test
  of a pair: a cursor that starts at 0; where the test of the operation at the cursor
  and its successor succeeds, both are removed, the pair is counted and the cursor
  steps back by one, not below 0; otherwise the cursor advances; the scan ends when the
  cursor is past the second-to-last index.
\<close>

function InversePairCancellation ::
  "('op \<Rightarrow> 'op \<Rightarrow> 's \<Rightarrow> bool \<times> 's) \<Rightarrow> 'op list \<Rightarrow> nat \<Rightarrow> nat \<Rightarrow> 's \<Rightarrow> 'op list \<times> nat \<times> 's" where
  "InversePairCancellation test chain cursor pairs s =
     (if cursor + 2 \<le> length chain then
        (case test (chain ! cursor) (chain ! (cursor + 1)) s of
           (True, s') \<Rightarrow>
             InversePairCancellation test (take cursor chain @ drop (cursor + 2) chain)
               (cursor - 1) (pairs + 1) s'
         | (False, s') \<Rightarrow> InversePairCancellation test chain (cursor + 1) pairs s')
      else (chain, pairs, s))"
  by pat_completeness auto
termination
  by (relation "measure (\<lambda>(test, chain, cursor, pairs, s). 2 * length chain - cursor)") auto

declare InversePairCancellation.simps [simp del]

text \<open>
  The test in the words of the specification: the two operations are of the same type
  and each is the inverse of the other.
\<close>

definition sameTypeAndMutuallyInverse ::
  "('op, 's) OpInterface \<Rightarrow> 'op \<Rightarrow> 'op \<Rightarrow> 's \<Rightarrow> bool \<times> 's" where
  "sameTypeAndMutuallyInverse C first second s =
     (case isSameType C first second s of
        (True, s1) \<Rightarrow>
          (case isInverse C first second s1 of
             (True, s2) \<Rightarrow> isInverse C second first s2
           | (False, s2) \<Rightarrow> (False, s2))
      | (False, s1) \<Rightarrow> (False, s1))"

text \<open>
  No adjacent pair of \<open>v\<close> that starts before position \<open>k\<close> is related by \<open>R\<close>.
\<close>

definition settled :: "('op \<Rightarrow> 'op \<Rightarrow> bool) \<Rightarrow> 'op list \<Rightarrow> int \<Rightarrow> bool" where
  "settled R v k = (\<forall>i. int i < k \<and> i + 1 < length v \<longrightarrow> \<not> R (v ! i) (v ! (i + 1)))"

text \<open>
  A chain with nothing to eliminate, as the code asks: no operation ever answers true
  to \<^verbatim>\<open>isNoOp\<close>, and no operation ever answers true to both \<^verbatim>\<open>isSameType\<close> and
  \<^verbatim>\<open>isInverse\<close> of its successor (the one direction in which the code asks).
\<close>

definition no_eliminable :: "('op, 's) OpInterface \<Rightarrow> 'op list \<Rightarrow> bool" where
  "no_eliminable C ops =
     ((\<forall>a \<in> set ops. \<forall>t. \<not> fst (isNoOp C a t)) \<and>
      successively (\<lambda>a b. \<forall>t. \<not> fst (sameTypeAndInverse C a b t)) ops)"

text \<open>
  A chain with nothing to eliminate, in the words of the specification: no identity
  operation, and no adjacent pair of the same type in which each operation is the
  inverse of the other.
\<close>

definition no_eliminable_mutual :: "('op, 's) OpInterface \<Rightarrow> 'op list \<Rightarrow> bool" where
  "no_eliminable_mutual C ops =
     ((\<forall>a \<in> set ops. \<forall>t. \<not> fst (isNoOp C a t)) \<and>
      successively (\<lambda>a b. \<forall>t. \<not> fst (sameTypeAndMutuallyInverse C a b t)) ops)"

text \<open>
  Operations that share a flag: \<^verbatim>\<open>isNoOp\<close> answers the flag and clears it,
  \<^verbatim>\<open>isSameType\<close> answers false and sets it. Every round over a chain of two or more
  of them removes the first one.
\<close>

definition flag_ops :: "(nat, bool) OpInterface" where
  "flag_ops =
     \<lparr> isNoOp = (\<lambda>a flag. (flag, False)),
       isSameType = (\<lambda>a b flag. (False, True)),
       isInverse = (\<lambda>a b flag. (False, flag)) \<rparr>"

text \<open>
  Operations that count the identity queries made so far and answer false to the first
  one only.
\<close>

definition late_ops :: "(nat, nat) OpInterface" where
  "late_ops =
     \<lparr> isNoOp = (\<lambda>a n. (0 < n, n + 1)),
       isSameType = (\<lambda>a b n. (False, n)),
       isInverse = (\<lambda>a b n. (False, n)) \<rparr>"

text \<open>Operations of one type with an inverse relation that is not symmetric.\<close>

definition asymmetric_ops :: "(nat, unit) OpInterface" where
  "asymmetric_ops = pure_ops (\<lambda>a. False) (\<lambda>a b. True) (\<lambda>a b. a < b)"

text \<open>
  Operations named by integers, all of one type: \<open>0\<close> is the identity and \<open>- a\<close> is
  the inverse of \<open>a\<close>.
\<close>

definition signed_ops :: "(int, unit) OpInterface" where
  "signed_ops = pure_ops (\<lambda>a. a = 0) (\<lambda>a b. True) (\<lambda>a b. a + b = 0)"

section \<open>The loop bound\<close>

lemma ucast_m1: "(ucast (- 1 :: 64 word) :: 32 word) = - 1"
  by (rule bit_word_eqI) (simp add: bit_simps)

lemma size_minus_one_Nil: "size_minus_one [] = - 1"
  by (simp add: size_minus_one_def ucast_m1)

lemma size_minus_one_eq:
  "size_minus_one v = signed_take_bit 31 (uint (word_of_nat (length v) - 1 :: 64 word))"
  by (simp add: size_minus_one_def signed_ucast_eq)

lemma uint_pred_of_nat:
  assumes "0 < n"
  shows "uint (word_of_nat n - 1 :: 64 word) = int ((n - 1) mod 2 ^ 64)"
proof -
  have "(word_of_nat n - 1 :: 64 word) = word_of_nat (n - 1)"
    using assms by simp
  then show ?thesis
    by (simp add: uint_nat unat_of_nat)
qed

lemma size_minus_one_le: "size_minus_one v \<le> int (length v) - 1"
proof (cases "length v = 0")
  case True
  then show ?thesis by (simp add: size_minus_one_Nil)
next
  case False
  then have pos: "0 < length v" by simp
  define k where "k = int ((length v - 1) mod 2 ^ 64)"
  have k0: "0 \<le> k" by (simp add: k_def)
  have "- (2 ^ 31) \<le> k" using k0 by (rule order_trans [rotated]) simp
  then have a: "signed_take_bit 31 k \<le> k"
    by (simp only: signed_take_bit_int_less_eq_self_iff)
  have "(length v - 1) mod 2 ^ 64 \<le> length v - 1"
    by (rule mod_less_eq_dividend)
  then have b: "k \<le> int (length v - 1)"
    unfolding k_def by (simp only: of_nat_le_iff)
  have "size_minus_one v = signed_take_bit 31 k"
    unfolding k_def size_minus_one_eq uint_pred_of_nat [OF pos] ..
  with a b pos show ?thesis by linarith
qed

lemma size_minus_one_small:
  assumes "0 < length v" and "length v < 2 ^ 31"
  shows "size_minus_one v = int (length v) - 1"
proof -
  define m where "m = length v - 1"
  have lt: "m < 2 ^ 31" using assms by (simp add: m_def)
  have "(2::nat) ^ 31 \<le> 2 ^ 64" by (rule power_increasing) simp_all
  with lt have "m < 2 ^ 64" by (rule less_le_trans)
  then have md: "m mod 2 ^ 64 = m" by (rule mod_less)
  have "int m < int (2 ^ 31)" using lt by (simp only: of_nat_less_iff)
  then have hi: "int m < 2 ^ 31" by simp
  have "- (2 ^ 31) \<le> (0::int)" by simp
  also have "0 \<le> int m" by simp
  finally have lo: "- (2 ^ 31) \<le> int m" .
  have "signed_take_bit 31 (int m) = int m"
    using lo hi by (rule signed_take_bit_int_eq_self)
  moreover have "size_minus_one v = signed_take_bit 31 (int (m mod 2 ^ 64))"
    unfolding m_def size_minus_one_eq uint_pred_of_nat [OF assms(1)] ..
  ultimately have "size_minus_one v = int m" by (simp only: md)
  then show ?thesis using assms(1) by (simp add: m_def)
qed

section \<open>Properties of RemoveNoOps\<close>

lemma subseq_erase: "subseq (erase v i j) v" if "i \<le> j"
proof -
  from that obtain k where j: "j = i + k" by (auto simp: le_iff_add)
  have "subseq (drop k (drop i v)) (drop i v)"
    by (metis append_take_drop_id list_emb_append2 subseq_order.order_refl)
  then have "subseq (take i v @ drop j v) (take i v @ drop i v)"
    by (intro list_emb_append_mono) (simp_all add: j add.commute)
  then show ?thesis by (simp add: erase_def)
qed

lemma length_erase: "j \<le> length v \<Longrightarrow> i \<le> j \<Longrightarrow> length (erase v i j) = length v - (j - i)"
  by (simp add: erase_def)

lemma RemoveNoOps_loop_Inr:
  "iter \<le> length opVec \<Longrightarrow>
   \<exists>v' n s'. RemoveNoOps_loop C opVec iter cnt s = Inr (v', n, s') \<and> subseq v' opVec
      \<and> cnt \<le> n \<and> int (length v') = int (length opVec) - (n - cnt)"
proof (induction C opVec iter cnt s rule: RemoveNoOps_loop.induct)
  case (1 C opVec iter cnt s)
  show ?case
  proof (cases "iter = length opVec")
    case True
    then show ?thesis by (simp add: RemoveNoOps_loop.simps)
  next
    case False
    with "1.prems" have lt: "iter < length opVec" by simp
    obtain b s1 where q: "isNoOp C (opVec ! iter) s = (b, s1)" by force
    show ?thesis
    proof (cases b)
      case True
      have le: "iter \<le> length (erase opVec iter (iter + 1))"
        using lt by (simp add: erase_def)
      from "1.IH"(1) [of b s1] False q True le lt
      obtain v' n s' where r: "RemoveNoOps_loop C (erase opVec iter (iter + 1)) iter (cnt + 1) s1 = Inr (v', n, s')"
        and sub: "subseq v' (erase opVec iter (iter + 1))" and n: "cnt + 1 \<le> n"
        and len: "int (length v') = int (length (erase opVec iter (iter + 1))) - (n - (cnt + 1))"
        by auto
      have "RemoveNoOps_loop C opVec iter cnt s = Inr (v', n, s')"
        using lt q True r by (subst RemoveNoOps_loop.simps) simp
      moreover have "subseq v' opVec"
        using sub subseq_erase [of iter "iter + 1" opVec] by (meson le_add1 subseq_order.order_trans)
      moreover have "int (length v') = int (length opVec) - (n - cnt)"
        using len lt by (simp add: length_erase)
      ultimately show ?thesis using n by auto
    next
      case F: False
      from "1.IH"(2) [of b s1] False q F lt
      obtain v' n s' where r: "RemoveNoOps_loop C opVec (iter + 1) cnt s1 = Inr (v', n, s')"
        and rest: "subseq v' opVec" "cnt \<le> n" "int (length v') = int (length opVec) - (n - cnt)"
        by auto
      have "RemoveNoOps_loop C opVec iter cnt s = Inr (v', n, s')"
        using lt q F r by (subst RemoveNoOps_loop.simps) simp
      with rest show ?thesis by auto
    qed
  qed
qed

lemma take_erase_same: "i \<le> j \<Longrightarrow> take i (erase v i j) = take i v"
  by (simp add: erase_def min_def)

lemma drop_erase_same: "i \<le> length v \<Longrightarrow> drop i (erase v i j) = drop j v"
  by (simp add: erase_def min_def)

lemma RemoveNoOps_loop_answers:
  "iter \<le> length opVec \<Longrightarrow>
   RemoveNoOps_loop C opVec iter cnt s =
     (case isNoOp_answers C (drop iter opVec) s of
        (bs, s') \<Rightarrow> Inr (take iter opVec @ kept_ops (drop iter opVec) bs,
                        cnt + int (length (filter (\<lambda>b. b) bs)), s'))"
proof (induction C opVec iter cnt s rule: RemoveNoOps_loop.induct)
  case (1 C opVec iter cnt s)
  show ?case
  proof (cases "iter = length opVec")
    case True
    then show ?thesis by (simp add: RemoveNoOps_loop.simps kept_ops_def)
  next
    case False
    with "1.prems" have lt: "iter < length opVec" by simp
    then have dr: "drop iter opVec = opVec ! iter # drop (iter + 1) opVec"
      by (simp add: Cons_nth_drop_Suc)
    obtain b s1 where q: "isNoOp C (opVec ! iter) s = (b, s1)" by force
    obtain bs s' where a: "isNoOp_answers C (drop (iter + 1) opVec) s1 = (bs, s')" by force
    show ?thesis
    proof (cases b)
      case True
      have le: "iter \<le> length (erase opVec iter (iter + 1))"
        using lt by (simp add: erase_def)
      from "1.IH"(1) [of b s1] False q True le lt a
      have "RemoveNoOps_loop C (erase opVec iter (iter + 1)) iter (cnt + 1) s1 =
              Inr (take iter opVec @ kept_ops (drop (iter + 1) opVec) bs,
                   cnt + 1 + int (length (filter (\<lambda>b. b) bs)), s')"
        by (simp add: take_erase_same drop_erase_same)
      then show ?thesis
        using lt q True a by (subst RemoveNoOps_loop.simps) (simp add: dr kept_ops_def)
    next
      case F: False
      from "1.IH"(2) [of b s1] False q F lt a
      have "RemoveNoOps_loop C opVec (iter + 1) cnt s1 =
              Inr (take (iter + 1) opVec @ kept_ops (drop (iter + 1) opVec) bs,
                   cnt + int (length (filter (\<lambda>b. b) bs)), s')"
        by simp
      then show ?thesis
        using lt q F a
        by (subst RemoveNoOps_loop.simps) (simp add: dr kept_ops_def take_Suc_conv_app_nth)
    qed
  qed
qed

lemma isNoOp_answers_pure:
  "isNoOp_answers (pure_ops noop same inver) v s = (map noop v, s)"
  by (induction v) (simp_all add: pure_ops_def)

lemma length_isNoOp_answers: "length (fst (isNoOp_answers C v s)) = length v"
proof (induction v arbitrary: s)
  case Nil
  show ?case by simp
next
  case (Cons a v)
  obtain b s1 where q: "isNoOp C a s = (b, s1)" by force
  obtain bs s' where r: "isNoOp_answers C v s1 = (bs, s')" by force
  from Cons [of s1] r have "length bs = length v" by simp
  with q r show ?case by simp
qed

lemma count_true_le: "length (filter (\<lambda>b. b) (fst (isNoOp_answers C v s))) \<le> length v"
  using length_filter_le [of "\<lambda>b. b" "fst (isNoOp_answers C v s)"]
  by (simp add: length_isNoOp_answers)

lemma kept_ops_map: "kept_ops v (map p v) = filter (\<lambda>a. \<not> p a) v"
  by (induction v) (simp_all add: kept_ops_def)

lemma RemoveNoOps_pure:
  "RemoveNoOps (pure_ops noop same inver) opVec s =
     Inr (filter (\<lambda>a. \<not> noop a) opVec, int (length (filter noop opVec)), s)"
  by (simp add: RemoveNoOps_def RemoveNoOps_loop_answers isNoOp_answers_pure kept_ops_map comp_def)

section \<open>Properties of RemoveInverseOps\<close>

text \<open>Inside the loop both reads are in range, whatever the length of the chain.\<close>

lemma cursor_in_range:
  assumes "0 \<le> firstindex" and "firstindex < size_minus_one opVec"
  shows "nat firstindex + 1 < length opVec"
    and "elem_at opVec firstindex = Some (opVec ! nat firstindex)"
    and "elem_at opVec (firstindex + 1) = Some (opVec ! (nat firstindex + 1))"
proof -
  from assms size_minus_one_le [of opVec] show a: "nat firstindex + 1 < length opVec"
    by linarith
  from a assms(1) show "elem_at opVec firstindex = Some (opVec ! nat firstindex)"
    by (simp add: elem_at_def)
  from a assms(1) show "elem_at opVec (firstindex + 1) = Some (opVec ! (nat firstindex + 1))"
    by (simp add: elem_at_def nat_add_distrib)
qed

lemma RemoveInverseOps_loop_Inr:
  "0 \<le> firstindex \<Longrightarrow>
   \<exists>v' n s'. RemoveInverseOps_loop C opVec firstindex cnt s = Inr (v', n, s') \<and> subseq v' opVec
      \<and> cnt \<le> n \<and> int (length v') = int (length opVec) - 2 * (n - cnt)"
proof (induction C opVec firstindex cnt s rule: RemoveInverseOps_loop.induct)
  case (1 C opVec firstindex cnt s)
  show ?case
  proof (cases "firstindex < size_minus_one opVec")
    case False
    then show ?thesis by (simp add: RemoveInverseOps_loop.simps)
  next
    case True
    note r = cursor_in_range [OF "1.prems" True]
    let ?a = "opVec ! nat firstindex" and ?b = "opVec ! (nat firstindex + 1)"
    let ?v = "erase opVec (nat firstindex) (nat (firstindex + 2))"
    obtain b s1 where q: "sameTypeAndInverse C ?a ?b s = (b, s1)" by force
    show ?thesis
    proof (cases b)
      case T: True
      have "0 \<le> max 0 (firstindex - 1)" by simp
      with "1.IH"(1) [of ?a ?b b s1] True r q T
      obtain v' n s' where l: "RemoveInverseOps_loop C ?v (max 0 (firstindex - 1)) (cnt + 1) s1 = Inr (v', n, s')"
        and sub: "subseq v' ?v" and n: "cnt + 1 \<le> n"
        and len: "int (length v') = int (length ?v) - 2 * (n - (cnt + 1))"
        by auto
      have "RemoveInverseOps_loop C opVec firstindex cnt s = Inr (v', n, s')"
        using True r q T l by (subst RemoveInverseOps_loop.simps) simp
      moreover have "subseq ?v opVec"
        using "1.prems" by (intro subseq_erase) simp
      with sub have "subseq v' opVec" by (rule subseq_order.order_trans)
      moreover have "length ?v = length opVec - 2"
        using r(1) "1.prems" by (simp add: length_erase nat_add_distrib)
      with len r(1) have "int (length v') = int (length opVec) - 2 * (n - cnt)" by simp
      ultimately show ?thesis using n by auto
    next
      case F: False
      have "0 \<le> firstindex + 1" using "1.prems" by simp
      with "1.IH"(2) [of ?a ?b b s1] True r q F
      obtain v' n s' where l: "RemoveInverseOps_loop C opVec (firstindex + 1) cnt s1 = Inr (v', n, s')"
        and rest: "subseq v' opVec" "cnt \<le> n" "int (length v') = int (length opVec) - 2 * (n - cnt)"
        by auto
      have "RemoveInverseOps_loop C opVec firstindex cnt s = Inr (v', n, s')"
        using True r q F l by (subst RemoveInverseOps_loop.simps) simp
      with rest show ?thesis by auto
    qed
  qed
qed

lemma RemoveInverseOps_cursors_bound:
  "0 \<le> firstindex \<Longrightarrow>
   (\<forall>i \<in> set (RemoveInverseOps_cursors C opVec firstindex s). 0 \<le> i) \<and>
   int (length (RemoveInverseOps_cursors C opVec firstindex s))
     \<le> max 0 (int (length opVec) - firstindex - 1) + 1"
proof (induction C opVec firstindex s rule: RemoveInverseOps_cursors.induct)
  case (1 C opVec firstindex s)
  show ?case
  proof (cases "firstindex < size_minus_one opVec")
    case False
    with "1.prems" show ?thesis by (simp add: RemoveInverseOps_cursors.simps)
  next
    case True
    note r = cursor_in_range [OF "1.prems" True]
    let ?a = "opVec ! nat firstindex" and ?b = "opVec ! (nat firstindex + 1)"
    let ?v = "erase opVec (nat firstindex) (nat (firstindex + 2))"
    obtain b s1 where q: "sameTypeAndInverse C ?a ?b s = (b, s1)" by force
    show ?thesis
    proof (cases b)
      case T: True
      have "0 \<le> max 0 (firstindex - 1)" by simp
      with "1.IH"(1) [of ?a ?b b s1] True r q T
      have ih: "\<forall>i \<in> set (RemoveInverseOps_cursors C ?v (max 0 (firstindex - 1)) s1). 0 \<le> i"
         "int (length (RemoveInverseOps_cursors C ?v (max 0 (firstindex - 1)) s1))
           \<le> max 0 (int (length ?v) - max 0 (firstindex - 1) - 1) + 1"
        by auto
      have e: "RemoveInverseOps_cursors C opVec firstindex s =
                 firstindex # RemoveInverseOps_cursors C ?v (max 0 (firstindex - 1)) s1"
        using True r q T by (subst RemoveInverseOps_cursors.simps) simp
      have "length ?v = length opVec - 2"
        using r(1) "1.prems" by (simp add: length_erase nat_add_distrib)
      with r(1) have "int (length ?v) = int (length opVec) - 2" by simp
      with ih(2) r(1) "1.prems"
      have "int (length (RemoveInverseOps_cursors C ?v (max 0 (firstindex - 1)) s1)) + 1
              \<le> max 0 (int (length opVec) - firstindex - 1) + 1"
        by (simp add: max_def split: if_splits)
      with ih(1) "1.prems" show ?thesis by (simp add: e)
    next
      case F: False
      have "0 \<le> firstindex + 1" using "1.prems" by simp
      with "1.IH"(2) [of ?a ?b b s1] True r q F
      have ih: "\<forall>i \<in> set (RemoveInverseOps_cursors C opVec (firstindex + 1) s1). 0 \<le> i"
         "int (length (RemoveInverseOps_cursors C opVec (firstindex + 1) s1))
           \<le> max 0 (int (length opVec) - (firstindex + 1) - 1) + 1"
        by auto
      have e: "RemoveInverseOps_cursors C opVec firstindex s =
                 firstindex # RemoveInverseOps_cursors C opVec (firstindex + 1) s1"
        using True r q F by (subst RemoveInverseOps_cursors.simps) simp
      from ih(2) r(1) "1.prems"
      have "int (length (RemoveInverseOps_cursors C opVec (firstindex + 1) s1)) + 1
              \<le> max 0 (int (length opVec) - firstindex - 1) + 1"
        by (simp add: max_def split: if_splits)
      with ih(1) "1.prems" show ?thesis by (simp add: e)
    qed
  qed
qed

lemma sameTypeAndInverse_pure:
  "sameTypeAndInverse (pure_ops noop same inver) a b s = (same a b \<and> inver a b, s)"
  by (cases "same a b") (simp_all add: sameTypeAndInverse_def pure_ops_def)

lemma settled_erase:
  assumes "settled R v k" and "0 \<le> k" and "nat k + 1 < length v"
  shows "settled R (erase v (nat k) (nat (k + 2))) (max 0 (k - 1))"
  unfolding settled_def
proof (intro allI impI)
  fix i
  assume a: "int i < max 0 (k - 1) \<and> i + 1 < length (erase v (nat k) (nat (k + 2)))"
  then have i: "i + 1 < nat k" by (auto simp: max_def split: if_splits)
  then have "erase v (nat k) (nat (k + 2)) ! i = v ! i"
    and "erase v (nat k) (nat (k + 2)) ! (i + 1) = v ! (i + 1)"
    using assms(3) by (simp_all add: erase_def nth_append)
  moreover have "\<not> R (v ! i) (v ! (i + 1))"
    using assms i by (auto simp: settled_def)
  ultimately show "\<not> R (erase v (nat k) (nat (k + 2)) ! i) (erase v (nat k) (nat (k + 2)) ! (i + 1))"
    by simp
qed

lemma settled_advance:
  assumes "settled R v k" and "0 \<le> k" and "\<not> R (v ! nat k) (v ! (nat k + 1))"
  shows "settled R v (k + 1)"
  unfolding settled_def
proof (intro allI impI)
  fix i
  assume a: "int i < k + 1 \<and> i + 1 < length v"
  show "\<not> R (v ! i) (v ! (i + 1))"
  proof (cases "int i < k")
    case True
    with assms(1) a show ?thesis by (auto simp: settled_def)
  next
    case False
    with a assms(2) have "i = nat k" by linarith
    with assms(3) show ?thesis by simp
  qed
qed

lemma RemoveInverseOps_loop_settles:
  assumes R: "R = (\<lambda>a b. same a b \<and> inver a b)"
  shows "C = pure_ops noop same inver \<Longrightarrow> 0 \<le> firstindex \<Longrightarrow> settled R opVec firstindex \<Longrightarrow>
     RemoveInverseOps_loop C opVec firstindex cnt s = Inr (v', n, s') \<Longrightarrow>
     s' = s \<and> (\<exists>k. size_minus_one v' \<le> k \<and> settled R v' k)"
proof (induction C opVec firstindex cnt s rule: RemoveInverseOps_loop.induct)
  case (1 C opVec firstindex cnt s)
  show ?case
  proof (cases "firstindex < size_minus_one opVec")
    case False
    with "1.prems"(4) have "v' = opVec" "s' = s"
      by (simp_all add: RemoveInverseOps_loop.simps)
    moreover from False have "size_minus_one opVec \<le> firstindex" by simp
    ultimately show ?thesis using "1.prems"(3) by blast
  next
    case True
    note r = cursor_in_range [OF "1.prems"(2) True]
    let ?a = "opVec ! nat firstindex" and ?b = "opVec ! (nat firstindex + 1)"
    let ?v = "erase opVec (nat firstindex) (nat (firstindex + 2))"
    have q: "sameTypeAndInverse C ?a ?b s = (R ?a ?b, s)"
      using "1.prems"(1) R by (simp add: sameTypeAndInverse_pure)
    show ?thesis
    proof (cases "R ?a ?b")
      case T: True
      have "RemoveInverseOps_loop C ?v (max 0 (firstindex - 1)) (cnt + 1) s = Inr (v', n, s')"
        using "1.prems"(4) True r q T by (subst (asm) RemoveInverseOps_loop.simps) simp
      moreover have "settled R ?v (max 0 (firstindex - 1))"
        using "1.prems" r(1) by (intro settled_erase) simp_all
      moreover have "0 \<le> max 0 (firstindex - 1)" by simp
      ultimately show ?thesis
        using "1.IH"(1) [of ?a ?b "R ?a ?b" s] True r q T "1.prems"(1) by simp
    next
      case F: False
      have "RemoveInverseOps_loop C opVec (firstindex + 1) cnt s = Inr (v', n, s')"
        using "1.prems"(4) True r q F by (subst (asm) RemoveInverseOps_loop.simps) simp
      moreover have "settled R opVec (firstindex + 1)"
        using "1.prems" F by (intro settled_advance) simp_all
      moreover have "0 \<le> firstindex + 1" using "1.prems" by simp
      ultimately show ?thesis
        using "1.IH"(2) [of ?a ?b "R ?a ?b" s] True r q F "1.prems"(1) by simp
    qed
  qed
qed

lemma RemoveInverseOps_loop_settled:
  assumes R: "R = (\<lambda>a b. same a b \<and> inver a b)"
  shows "C = pure_ops noop same inver \<Longrightarrow> 0 \<le> firstindex \<Longrightarrow> settled R opVec k \<Longrightarrow>
     size_minus_one opVec \<le> k \<Longrightarrow>
     RemoveInverseOps_loop C opVec firstindex cnt s = Inr (opVec, cnt, s)"
proof (induction C opVec firstindex cnt s rule: RemoveInverseOps_loop.induct)
  case (1 C opVec firstindex cnt s)
  show ?case
  proof (cases "firstindex < size_minus_one opVec")
    case False
    then show ?thesis by (simp add: RemoveInverseOps_loop.simps)
  next
    case True
    note r = cursor_in_range [OF "1.prems"(2) True]
    let ?a = "opVec ! nat firstindex" and ?b = "opVec ! (nat firstindex + 1)"
    have q: "sameTypeAndInverse C ?a ?b s = (R ?a ?b, s)"
      using "1.prems"(1) R by (simp add: sameTypeAndInverse_pure)
    have F: "\<not> R ?a ?b"
      using "1.prems" True r(1) by (auto simp: settled_def)
    have "0 \<le> firstindex + 1" using "1.prems" by simp
    with "1.IH"(2) [of ?a ?b "R ?a ?b" s] True r q F "1.prems"
    have "RemoveInverseOps_loop C opVec (firstindex + 1) cnt s = Inr (opVec, cnt, s)"
      by simp
    then show ?thesis
      using True r q F by (subst RemoveInverseOps_loop.simps) simp
  qed
qed

lemma RemoveInverseOps_pure_fixed:
  assumes "RemoveInverseOps (pure_ops noop same inver) opVec s = Inr (v', n, s')"
  shows "s' = s \<and> RemoveInverseOps (pure_ops noop same inver) v' s = Inr (v', 0, s)"
proof -
  define R where "R = (\<lambda>a b. same a b \<and> inver a b)"
  define P :: "('a, 'b) OpInterface" where "P = pure_ops noop same inver"
  have l: "RemoveInverseOps_loop P opVec 0 0 s = Inr (v', n, s')"
    using assms by (simp add: RemoveInverseOps_def P_def)
  have "settled R opVec 0" by (simp add: settled_def)
  with RemoveInverseOps_loop_settles [OF R_def P_def _ _ l]
  obtain k where k: "s' = s" "size_minus_one v' \<le> k" "settled R v' k"
    by auto
  have "RemoveInverseOps_loop P v' 0 0 s = Inr (v', 0, s)"
    by (rule RemoveInverseOps_loop_settled [OF R_def P_def _ k(3) k(2)]) simp
  with k(1) show ?thesis by (simp add: RemoveInverseOps_def P_def)
qed

lemma size_minus_one_int:
  "length v < 2 ^ 31 \<Longrightarrow> size_minus_one v = int (length v) - 1"
  by (cases "length v = 0") (simp_all add: size_minus_one_Nil size_minus_one_small)

lemma RemoveInverseOps_loop_scan:
  "test = sameTypeAndInverse C \<Longrightarrow> length chain < 2 ^ 31 \<Longrightarrow>
   RemoveInverseOps_loop C chain (int cursor) (int pairs) s =
     (case InversePairCancellation test chain cursor pairs s of
        (v, n, s') \<Rightarrow> Inr (v, int n, s'))"
proof (induction test chain cursor pairs s rule: InversePairCancellation.induct)
  case (1 test chain cursor pairs s)
  note test = "1.prems"(1)
  note bound = size_minus_one_int [OF "1.prems"(2)]
  show ?case
  proof (cases "cursor + 2 \<le> length chain")
    case False
    then have "\<not> int cursor < size_minus_one chain" using bound by simp
    with False show ?thesis
      by (simp add: RemoveInverseOps_loop.simps InversePairCancellation.simps)
  next
    case True
    then have g: "int cursor < size_minus_one chain" using bound by simp
    let ?a = "chain ! cursor" and ?b = "chain ! (cursor + 1)"
    have e: "elem_at chain (int cursor) = Some ?a" "elem_at chain (int cursor + 1) = Some ?b"
      using True by (simp_all add: elem_at_def nat_add_distrib)
    obtain b s1 where q: "test ?a ?b s = (b, s1)" by force
    show ?thesis
    proof (cases b)
      case T: True
      let ?v = "take cursor chain @ drop (cursor + 2) chain"
      have v: "erase chain cursor (nat (int cursor + 2)) = ?v"
        by (simp add: erase_def nat_add_distrib)
      have c: "max 0 (int cursor - 1) = int (cursor - 1)" by simp
      have "length ?v < 2 ^ 31" using "1.prems"(2) True by simp
      with "1.IH"(1) [of b s1] True q T test
      have "RemoveInverseOps_loop C ?v (int (cursor - 1)) (int pairs + 1) s1 =
              (case InversePairCancellation test ?v (cursor - 1) (pairs + 1) s1 of
                 (v, n, s') \<Rightarrow> Inr (v, int n, s'))"
        by (simp add: add.commute)
      then show ?thesis
        using g e q T True
        by (subst RemoveInverseOps_loop.simps, subst InversePairCancellation.simps)
           (simp add: v c test [symmetric])
    next
      case F: False
      from "1.IH"(2) [of b s1] True q F "1.prems"
      have "RemoveInverseOps_loop C chain (int (cursor + 1)) (int pairs) s1 =
              (case InversePairCancellation test chain (cursor + 1) pairs s1 of
                 (v, n, s') \<Rightarrow> Inr (v, int n, s'))"
        by simp
      then show ?thesis
        using g e q F True
        by (subst RemoveInverseOps_loop.simps, subst InversePairCancellation.simps)
           (simp add: test [symmetric] add.commute)
    qed
  qed
qed

lemma RemoveNoOps_Inr:
  "\<exists>v' n s'. RemoveNoOps C opVec s = Inr (v', n, s') \<and> subseq v' opVec \<and> 0 \<le> n
      \<and> int (length v') = int (length opVec) - n"
  using RemoveNoOps_loop_Inr [of 0 opVec C 0 s] by (simp add: RemoveNoOps_def)

lemma RemoveInverseOps_Inr:
  "\<exists>v' n s'. RemoveInverseOps C opVec s = Inr (v', n, s') \<and> subseq v' opVec \<and> 0 \<le> n
      \<and> int (length v') = int (length opVec) - 2 * n"
  using RemoveInverseOps_loop_Inr [of 0 C opVec 0 s] by (simp add: RemoveInverseOps_def)

section \<open>Properties of the pass loop\<close>

lemma OptimizeOpVec_loop_Inr:
  "\<exists>ops' tn' ti' p' s'.
      OptimizeOpVec_loop C ops tn ti p s = Inr (ops', tn', ti', p', s') \<and> subseq ops' ops
      \<and> int (length ops') = int (length ops) - (tn' - tn) - 2 * (ti' - ti)
      \<and> tn \<le> tn' \<and> ti \<le> ti' \<and> p \<le> p' \<and> p' \<le> max p (MAX_OPTIMIZATION_PASSES + 1)"
proof (induction C ops tn ti p s rule: OptimizeOpVec_loop.induct)
  case (1 C ops tn ti p s)
  show ?case
  proof (cases "p \<le> MAX_OPTIMIZATION_PASSES")
    case False
    then show ?thesis by (simp add: OptimizeOpVec_loop.simps)
  next
    case True
    obtain v1 n1 s1 where a: "RemoveNoOps C ops s = Inr (v1, n1, s1)" "subseq v1 ops" "0 \<le> n1"
        "int (length v1) = int (length ops) - n1"
      using RemoveNoOps_Inr [of C ops s] by blast
    obtain v2 n2 s2 where b: "RemoveInverseOps C v1 s1 = Inr (v2, n2, s2)" "subseq v2 v1" "0 \<le> n2"
        "int (length v2) = int (length v1) - 2 * n2"
      using RemoveInverseOps_Inr [of C v1 s1] by blast
    from a(2) b(2) have sub: "subseq v2 ops" by (rule subseq_order.order_trans [rotated])
    show ?thesis
    proof (cases "n1 = 0 \<and> n2 = 0")
      case T: True
      then have "OptimizeOpVec_loop C ops tn ti p s = Inr (v2, tn, ti, p, s2)"
        using True a(1) b(1) by (subst OptimizeOpVec_loop.simps) simp
      with sub a(4) b(4) T show ?thesis by simp
    next
      case F: False
      from "1.IH" [OF True a(1) refl refl b(1) refl refl F]
      obtain ops' tn' ti' p' s' where
        r: "OptimizeOpVec_loop C v2 (tn + n1) (ti + n2) (p + 1) s2 = Inr (ops', tn', ti', p', s')"
        and s: "subseq ops' v2"
        and l: "int (length ops') = int (length v2) - (tn' - (tn + n1)) - 2 * (ti' - (ti + n2))"
        and m: "tn + n1 \<le> tn'" "ti + n2 \<le> ti'" "p + 1 \<le> p'"
           "p' \<le> max (p + 1) (MAX_OPTIMIZATION_PASSES + 1)"
        by blast
      have "OptimizeOpVec_loop C ops tn ti p s = Inr (ops', tn', ti', p', s')"
        using True a(1) b(1) F r by (subst OptimizeOpVec_loop.simps) auto
      moreover from s sub have "subseq ops' ops" by (rule subseq_order.order_trans)
      moreover from l a(4) b(4)
      have "int (length ops') = int (length ops) - (tn' - tn) - 2 * (ti' - ti)" by simp
      moreover from m a(3) b(3) True
      have "tn \<le> tn'" "ti \<le> ti'" "p \<le> p'" "p' \<le> max p (MAX_OPTIMIZATION_PASSES + 1)"
        by simp_all
      ultimately show ?thesis by blast
    qed
  qed
qed

lemma RemoveNoOps_loop_none:
  "\<forall>a \<in> set opVec. \<forall>t. \<not> fst (isNoOp C a t) \<Longrightarrow> iter \<le> length opVec \<Longrightarrow>
   \<exists>s'. RemoveNoOps_loop C opVec iter cnt s = Inr (opVec, cnt, s')"
proof (induction C opVec iter cnt s rule: RemoveNoOps_loop.induct)
  case (1 C opVec iter cnt s)
  show ?case
  proof (cases "iter = length opVec")
    case True
    then show ?thesis by (simp add: RemoveNoOps_loop.simps)
  next
    case False
    with "1.prems" have lt: "iter < length opVec" by simp
    obtain b s1 where q: "isNoOp C (opVec ! iter) s = (b, s1)" by force
    have "\<not> fst (isNoOp C (opVec ! iter) s)" using "1.prems"(1) lt by simp
    with q have F: "b = False" by simp
    from "1.IH"(2) [of b s1] False q F lt "1.prems"(1)
    obtain s' where "RemoveNoOps_loop C opVec (iter + 1) cnt s1 = Inr (opVec, cnt, s')"
      by auto
    then have "RemoveNoOps_loop C opVec iter cnt s = Inr (opVec, cnt, s')"
      using lt q F by (subst RemoveNoOps_loop.simps) simp
    then show ?thesis ..
  qed
qed

lemma RemoveInverseOps_loop_none:
  "successively (\<lambda>a b. \<forall>t. \<not> fst (sameTypeAndInverse C a b t)) opVec \<Longrightarrow> 0 \<le> firstindex \<Longrightarrow>
   \<exists>s'. RemoveInverseOps_loop C opVec firstindex cnt s = Inr (opVec, cnt, s')"
proof (induction C opVec firstindex cnt s rule: RemoveInverseOps_loop.induct)
  case (1 C opVec firstindex cnt s)
  show ?case
  proof (cases "firstindex < size_minus_one opVec")
    case False
    then show ?thesis by (simp add: RemoveInverseOps_loop.simps)
  next
    case True
    note r = cursor_in_range [OF "1.prems"(2) True]
    let ?a = "opVec ! nat firstindex" and ?b = "opVec ! (nat firstindex + 1)"
    obtain b s1 where q: "sameTypeAndInverse C ?a ?b s = (b, s1)" by force
    have "\<not> fst (sameTypeAndInverse C ?a ?b s)"
      using successively_nth [OF "1.prems"(1), of "nat firstindex"] r(1) by simp
    with q have F: "b = False" by simp
    have "0 \<le> firstindex + 1" using "1.prems"(2) by simp
    with "1.IH"(2) [of ?a ?b b s1] True r q F "1.prems"(1)
    obtain s' where "RemoveInverseOps_loop C opVec (firstindex + 1) cnt s1 = Inr (opVec, cnt, s')"
      by auto
    then have "RemoveInverseOps_loop C opVec firstindex cnt s = Inr (opVec, cnt, s')"
      using True r q F by (subst RemoveInverseOps_loop.simps) simp
    then show ?thesis ..
  qed
qed

lemma OptimizeOpVec_loop_none:
  assumes "no_eliminable C ops"
  shows "\<exists>s'. OptimizeOpVec_loop C ops 0 0 0 s = Inr (ops, 0, 0, 0, s')"
proof -
  from assms obtain s1 where a: "RemoveNoOps C ops s = Inr (ops, 0, s1)"
    using RemoveNoOps_loop_none [of ops C 0 0 s] by (auto simp: no_eliminable_def RemoveNoOps_def)
  from assms obtain s2 where b: "RemoveInverseOps C ops s1 = Inr (ops, 0, s2)"
    using RemoveInverseOps_loop_none [of C ops 0 0 s1]
    by (auto simp: no_eliminable_def RemoveInverseOps_def)
  have "OptimizeOpVec_loop C ops 0 0 0 s = Inr (ops, 0, 0, 0, s2)"
    using a b by (subst OptimizeOpVec_loop.simps) (simp add: MAX_OPTIMIZATION_PASSES_def)
  then show ?thesis ..
qed

text \<open>A round that finds the chain unchanged by both passes: the loop ends.\<close>

lemma OptimizeOpVec_loop_fixed:
  assumes "RemoveNoOps C ops s = Inr (ops, 0, s1)" and "RemoveInverseOps C ops s1 = Inr (ops, 0, s2)"
  shows "OptimizeOpVec_loop C ops tn ti p s =
           Inr (ops, tn, ti, p, if p \<le> MAX_OPTIMIZATION_PASSES then s2 else s)"
  using assms by (subst OptimizeOpVec_loop.simps) simp

lemma subseq_set: "subseq v' v \<Longrightarrow> set v' \<subseteq> set v"
  by (induction rule: list_emb.induct) auto

lemma OptimizeOpVec_loop_pure:
  fixes noop same inver
  defines "P \<equiv> pure_ops noop same inver"
  shows "\<exists>ops' tn ti p.
     OptimizeOpVec_loop P ops 0 0 0 s = Inr (ops', tn, ti, p, s) \<and> p \<le> 1 \<and>
     RemoveNoOps P ops' s = Inr (ops', 0, s) \<and> RemoveInverseOps P ops' s = Inr (ops', 0, s)"
proof -
  let ?v1 = "filter (\<lambda>a. \<not> noop a) ops"
  have a: "RemoveNoOps P ops s = Inr (?v1, int (length (filter noop ops)), s)"
    unfolding P_def by (rule RemoveNoOps_pure)
  obtain v2 n2 s2 where b: "RemoveInverseOps P ?v1 s = Inr (v2, n2, s2)" and sub: "subseq v2 ?v1"
    using RemoveInverseOps_Inr [of P ?v1 s] by blast
  from b have s2: "s2 = s" and fix2: "RemoveInverseOps P v2 s = Inr (v2, 0, s)"
    using RemoveInverseOps_pure_fixed [of noop same inver ?v1 s v2 n2 s2] by (simp_all add: P_def)
  from sub have "set v2 \<subseteq> set ?v1" by (rule subseq_set)
  then have "\<forall>a \<in> set v2. \<not> noop a" by auto
  then have f: "filter (\<lambda>a. \<not> noop a) v2 = v2" "filter noop v2 = []"
    by (simp_all add: filter_empty_conv)
  have fix1: "RemoveNoOps P v2 s = Inr (v2, 0, s)"
    unfolding P_def by (simp add: RemoveNoOps_pure f)
  let ?n1 = "int (length (filter noop ops))"
  show ?thesis
  proof (cases "?n1 = 0 \<and> n2 = 0")
    case True
    then have "OptimizeOpVec_loop P ops 0 0 0 s = Inr (v2, 0, 0, 0, s)"
      using a b s2
      by (subst OptimizeOpVec_loop.simps) (simp add: MAX_OPTIMIZATION_PASSES_def)
    with fix1 fix2 show ?thesis by simp
  next
    case False
    have "OptimizeOpVec_loop P v2 ?n1 n2 1 s = Inr (v2, ?n1, n2, 1, s)"
      using OptimizeOpVec_loop_fixed [OF fix1 fix2] by simp
    with False have "OptimizeOpVec_loop P ops 0 0 0 s = Inr (v2, ?n1, n2, 1, s)"
      using a b s2
      by (subst OptimizeOpVec_loop.simps) (auto simp add: MAX_OPTIMIZATION_PASSES_def)
    with fix1 fix2 show ?thesis by simp
  qed
qed

section \<open>The cursor scan of the specification\<close>

lemma InversePairCancellation_pairs_le:
  "pairs \<le> fst (snd (InversePairCancellation test chain cursor pairs s))"
proof (induction test chain cursor pairs s rule: InversePairCancellation.induct)
  case (1 test chain cursor pairs s)
  show ?case
  proof (cases "cursor + 2 \<le> length chain")
    case False
    then show ?thesis by (simp add: InversePairCancellation.simps)
  next
    case True
    obtain b s1 where q: "test (chain ! cursor) (chain ! (cursor + 1)) s = (b, s1)" by force
    show ?thesis
    proof (cases b)
      case T: True
      from "1.IH"(1) [of b s1] True q T
      have "pairs + 1 \<le> fst (snd (InversePairCancellation test
              (take cursor chain @ drop (cursor + 2) chain) (cursor - 1) (pairs + 1) s1))"
        by simp
      then show ?thesis
        using True q T by (subst InversePairCancellation.simps) simp
    next
      case F: False
      from "1.IH"(2) [of b s1] True q F
      show ?thesis
        using True q F by (subst InversePairCancellation.simps) simp
    qed
  qed
qed

lemma size_minus_one_replicate: "size_minus_one (replicate (2 ^ 31 + 1) a) = - (2 ^ 31)"
  by (simp add: size_minus_one_def)

lemma RemoveInverseOps_long_chain: "RemoveInverseOps signed_ops (replicate (2 ^ 31 + 1) 0) () = Inr (replicate (2 ^ 31 + 1) 0, 0, ())"
proof -
  have "\<not> 0 < size_minus_one (replicate (2 ^ 31 + 1) (0::int))"
    by (simp only: size_minus_one_replicate) simp
  then show ?thesis
    unfolding RemoveInverseOps_def by (subst RemoveInverseOps_loop.simps) (simp only: if_False)
qed

lemma InversePairCancellation_long_chain: "0 < fst (snd (InversePairCancellation (sameTypeAndInverse signed_ops)
               (replicate (2 ^ 31 + 1) 0) 0 0 ()))"
proof -
  have t: "sameTypeAndInverse signed_ops 0 0 () = (True, ())"
    by (simp add: signed_ops_def sameTypeAndInverse_pure)
  have "InversePairCancellation (sameTypeAndInverse signed_ops) (replicate (2 ^ 31 + 1) 0) 0 0 ()
     = InversePairCancellation (sameTypeAndInverse signed_ops)
         (take 0 (replicate (2 ^ 31 + 1) 0) @ drop 2 (replicate (2 ^ 31 + 1) 0)) 0 1 ()"
    by (subst InversePairCancellation.simps) (simp add: t)
  moreover have "1 \<le> fst (snd (InversePairCancellation (sameTypeAndInverse signed_ops)
         (take 0 (replicate (2 ^ 31 + 1) 0) @ drop 2 (replicate (2 ^ 31 + 1) 0)) 0 1 ()))"
    by (rule InversePairCancellation_pairs_le)
  ultimately show ?thesis by simp
qed

lemma subseq_length: "subseq v' v \<Longrightarrow> length v' \<le> length v"
  by (rule list_emb_length)

lemma int_length_bound: "length v < 2 ^ 31 \<Longrightarrow> int (length v) < 2 ^ 31"
proof -
  assume "length v < 2 ^ 31"
  then have "int (length v) < int (2 ^ 31)" by (simp only: of_nat_less_iff)
  then show ?thesis by simp
qed

section \<open>The claims\<close>

text \<open>
  C1. The claim: the pass loop never makes more than \<^verbatim>\<open>MAX_OPTIMIZATION_PASSES\<close>
  (8) rounds that remove something, and a chain that never converges gets exactly 8.
  The loop condition is \<^verbatim>\<open>passes<=MAX_OPTIMIZATION_PASSES\<close>, so a ninth round runs
  while \<^verbatim>\<open>passes\<close> is 8. On ten operations of \<open>flag_ops\<close> every round removes one
  operation: nine rounds are made, nine operations removed, and the loop is left with
  \<^verbatim>\<open>passes\<close> equal to 9.
\<close>

theorem OptimizeOpVec_loop_nine_passes:
  "OptimizeOpVec_loop flag_ops [0, 1, 2, 3, 4, 5, 6, 7, 8, 9] 0 0 0 True = Inr ([9], 9, 0, 9, False)
   \<and> MAX_OPTIMIZATION_PASSES = 8"
  by code_simp

text \<open>
  C2. The claim: the diagnostic "max number of passes reached" is logged when, and only
  when, the bound is reached without a round that removes nothing. It is logged when
  \<^verbatim>\<open>passes == MAX_OPTIMIZATION_PASSES\<close> after the loop. On ten operations of
  \<open>flag_ops\<close> all nine rounds remove something, \<^verbatim>\<open>passes\<close> is 9 and the diagnostic
  is not logged; on nine of them the ninth round removes nothing, the loop is left by
  \<^verbatim>\<open>break\<close> with \<^verbatim>\<open>passes\<close> equal to 8, and the diagnostic is logged.
\<close>

theorem OptimizeOpVec_diagnostic_off_by_one:
  "OptimizeOpVec flag_ops True [0, 1, 2, 3, 4, 5, 6, 7, 8, 9] True =
     Inr ([9],
          [OptimizingOpVec, Serialized [0, 1, 2, 3, 4, 5, 6, 7, 8, 9], Optimized 10 1 9 9 0 [9]],
          False)
   \<and> OptimizeOpVec flag_ops True [0, 1, 2, 3, 4, 5, 6, 7, 8] True =
     Inr ([8],
          [OptimizingOpVec, Serialized [0, 1, 2, 3, 4, 5, 6, 7, 8], MaxPassesReached 8,
           Optimized 9 1 8 8 0 [8]],
          False)"
  by code_simp

text \<open>
  C3. For every chain and every behaviour of the three queries: \<^verbatim>\<open>RemoveInverseOps\<close>
  returns; its loop condition is evaluated at most as many times as the chain has
  operations (once on the empty chain), so the cursor loop makes fewer iterations than
  the chain is long; the pass loop returns with \<^verbatim>\<open>passes\<close> between 0 and
  \<^verbatim>\<open>MAX_OPTIMIZATION_PASSES + 1\<close>, that is after at most nine rounds; and
  \<^verbatim>\<open>OptimizeOpVec\<close> returns.
\<close>

theorem OptimizeOpVec_terminates:
  "(\<exists>v' n s'. RemoveInverseOps C opVec s = Inr (v', n, s'))
   \<and> int (length (RemoveInverseOps_cursors C opVec 0 s)) \<le> max 1 (int (length opVec))
   \<and> (\<exists>ops' tn ti passes s'.
         OptimizeOpVec_loop C ops 0 0 0 s = Inr (ops', tn, ti, passes, s')
         \<and> 0 \<le> passes \<and> passes \<le> MAX_OPTIMIZATION_PASSES + 1)
   \<and> (\<exists>ops' log s'. OptimizeOpVec C debug ops s = Inr (ops', log, s'))"
proof (intro conjI)
  show "\<exists>v' n s'. RemoveInverseOps C opVec s = Inr (v', n, s')"
    using RemoveInverseOps_Inr [of C opVec s] by blast
  show "int (length (RemoveInverseOps_cursors C opVec 0 s)) \<le> max 1 (int (length opVec))"
    using RemoveInverseOps_cursors_bound [of 0 C opVec s] by (simp add: max_def split: if_splits)
  obtain ops' tn ti p s' where l: "OptimizeOpVec_loop C ops 0 0 0 s = Inr (ops', tn, ti, p, s')"
      and p: "0 \<le> p" "p \<le> max 0 (MAX_OPTIMIZATION_PASSES + 1)"
    using OptimizeOpVec_loop_Inr [of C ops 0 0 0 s] by blast
  then show "\<exists>ops' tn ti passes s'.
         OptimizeOpVec_loop C ops 0 0 0 s = Inr (ops', tn, ti, passes, s')
         \<and> 0 \<le> passes \<and> passes \<le> MAX_OPTIMIZATION_PASSES + 1"
    by (simp add: MAX_OPTIMIZATION_PASSES_def)
  from l show "\<exists>ops' log s'. OptimizeOpVec C debug ops s = Inr (ops', log, s')"
    by (simp add: OptimizeOpVec_def Let_def)
qed

text \<open>
  C4. On the empty chain \<^verbatim>\<open>OptimizeOpVec\<close> returns at once: nothing is logged,
  whether debug logging is enabled or not, no query is made of any operation (the
  state of the operations is the one it was given), and the chain is still empty.
\<close>

theorem OptimizeOpVec_empty_chain:
  "OptimizeOpVec C debug [] s = Inr ([], [], s)"
  by (simp add: OptimizeOpVec_def)

text \<open>
  C5. On a chain of fewer than \<open>2 ^ 31\<close> operations \<^verbatim>\<open>RemoveNoOps\<close> asks every
  operation of the chain once, in order, and removes exactly those that answered true:
  the chain it leaves is the operations whose answer was false, in their order, and its
  result is the number of true answers, a number its \<^verbatim>\<open>int\<close> holds. When the answer
  is a function \<open>noop\<close> of the operation, the chain left is the chain filtered by
  \<open>\<not> noop\<close> and the result is the number of operations satisfying \<open>noop\<close>.
\<close>

theorem RemoveNoOps_removes_exactly_noops:
  assumes "length opVec < 2 ^ 31"
  shows "RemoveNoOps C opVec s =
     (case isNoOp_answers C opVec s of
        (bs, s') \<Rightarrow> Inr (kept_ops opVec bs, int (length (filter (\<lambda>b. b) bs)), s'))
   \<and> int (length (filter (\<lambda>b. b) (fst (isNoOp_answers C opVec s)))) < 2 ^ 31
   \<and> RemoveNoOps (pure_ops noop same inver) opVec s =
       Inr (filter (\<lambda>a. \<not> noop a) opVec, int (length (filter noop opVec)), s)
   \<and> int (length (filter noop opVec)) < 2 ^ 31"
proof (intro conjI)
  show "RemoveNoOps C opVec s =
     (case isNoOp_answers C opVec s of
        (bs, s') \<Rightarrow> Inr (kept_ops opVec bs, int (length (filter (\<lambda>b. b) bs)), s'))"
    using RemoveNoOps_loop_answers [of 0 opVec C 0 s] by (simp add: RemoveNoOps_def)
  have "length (filter (\<lambda>b. b) (fst (isNoOp_answers C opVec s))) < 2 ^ 31"
    using count_true_le [of C opVec s] assms by (rule le_less_trans)
  then have "int (length (filter (\<lambda>b. b) (fst (isNoOp_answers C opVec s)))) < int (2 ^ 31)"
    by (simp only: of_nat_less_iff)
  then show "int (length (filter (\<lambda>b. b) (fst (isNoOp_answers C opVec s)))) < 2 ^ 31"
    by simp
  show "RemoveNoOps (pure_ops noop same inver) opVec s =
       Inr (filter (\<lambda>a. \<not> noop a) opVec, int (length (filter noop opVec)), s)"
    by (rule RemoveNoOps_pure)
  have "length (filter noop opVec) < 2 ^ 31"
    using length_filter_le [of noop opVec] assms by (rule le_less_trans)
  then have "int (length (filter noop opVec)) < int (2 ^ 31)"
    by (simp only: of_nat_less_iff)
  then show "int (length (filter noop opVec)) < 2 ^ 31"
    by simp
qed

theorem RemoveNoOps_removes_exactly_noops_witness:
  "length [0, 1, 0, 2, 0 :: int] < 2 ^ 31
   \<and> isNoOp_answers signed_ops [0, 1, 0, 2, 0] () = ([True, False, True, False, True], ())
   \<and> RemoveNoOps signed_ops [0, 1, 0, 2, 0] () = Inr ([1, 2], 3, ())"
proof -
  have h: "length [0, 1, 0, 2, 0 :: int] < 2 ^ 31" by simp
  have a: "isNoOp_answers signed_ops [0, 1, 0, 2, 0] () = ([True, False, True, False, True], ())"
    by code_simp
  from RemoveNoOps_removes_exactly_noops [OF h, of signed_ops "()"] a
  have "RemoveNoOps signed_ops [0, 1, 0, 2, 0] () = Inr ([1, 2], 3, ())"
    by (simp add: kept_ops_def)
  with h a show ?thesis by blast
qed

text \<open>
  C6, as the claim words it: a pair is removed when the two operations are of the same
  type and each is the inverse of the other. The code asks
  \<^verbatim>\<open>first->isSameType(second) && first->isInverse(second)\<close> and never
  \<^verbatim>\<open>second->isInverse(first)\<close>. With an inverse relation that is not symmetric
  (\<open>1\<close> reports \<open>2\<close> as its inverse, \<open>2\<close> does not report \<open>1\<close>) the code removes
  the pair \<open>[1, 2]\<close>, and the scan with the mutual test keeps it. Besides, the bound the
  cursor is compared with is \<^verbatim>\<open>size()-1\<close> cast to \<^verbatim>\<open>int\<close>: on a chain of
  \<open>2 ^ 31 + 1\<close> operations it is negative, and the code leaves the chain as it is although
  the scan of the specification cancels a pair at once.
\<close>

theorem RemoveInverseOps_asymmetric_pair:
  "RemoveInverseOps asymmetric_ops [1, 2] () = Inr ([], 1, ())
   \<and> isInverse asymmetric_ops 2 1 () = (False, ())
   \<and> InversePairCancellation (sameTypeAndMutuallyInverse asymmetric_ops) [1, 2] 0 0 () = ([1, 2], 0, ())
   \<and> RemoveInverseOps signed_ops (replicate (2 ^ 31 + 1) 0) () = Inr (replicate (2 ^ 31 + 1) 0, 0, ())
   \<and> 0 < fst (snd (InversePairCancellation (sameTypeAndInverse signed_ops)
               (replicate (2 ^ 31 + 1) 0) 0 0 ()))"
proof (intro conjI)
  show "RemoveInverseOps asymmetric_ops [1, 2] () = Inr ([], 1, ())"
    by code_simp
  show "isInverse asymmetric_ops 2 1 () = (False, ())"
    by (simp add: asymmetric_ops_def pure_ops_def)
  show "InversePairCancellation (sameTypeAndMutuallyInverse asymmetric_ops) [1, 2] 0 0 () = ([1, 2], 0, ())"
    by code_simp
  show "RemoveInverseOps signed_ops (replicate (2 ^ 31 + 1) 0) () = Inr (replicate (2 ^ 31 + 1) 0, 0, ())"
    by (rule RemoveInverseOps_long_chain)
  show "0 < fst (snd (InversePairCancellation (sameTypeAndInverse signed_ops)
               (replicate (2 ^ 31 + 1) 0) 0 0 ()))"
    by (rule InversePairCancellation_long_chain)
qed

text \<open>
  C6, amended. On a chain of fewer than \<open>2 ^ 31\<close> operations \<^verbatim>\<open>RemoveInverseOps\<close> is
  the cursor scan of section 4.2 with the test
  \<^verbatim>\<open>first->isSameType(second) && first->isInverse(second)\<close>, asked of the operation at
  the cursor about its successor and in this direction only: the cursor starts at 0;
  where the test succeeds both operations are removed, the count goes up by one and the
  cursor steps back by one, not below 0; otherwise the cursor advances by one; the scan
  stops when the cursor is past the second-to-last index, and the result is the count.
\<close>

theorem RemoveInverseOps_cursor_scan:
  assumes "length opVec < 2 ^ 31"
  shows "RemoveInverseOps C opVec s =
           (case InversePairCancellation (sameTypeAndInverse C) opVec 0 0 s of
              (v, n, s') \<Rightarrow> Inr (v, int n, s'))"
  using RemoveInverseOps_loop_scan [OF refl assms, of C 0 0 s]
  by (simp add: RemoveInverseOps_def)

text \<open>
  The two chains of the unit test in the source file, with \<open>1\<close> for the exponent
  operation, \<open>2\<close> for the logarithm and a minus sign for the inverse direction: the
  first is emptied, the second keeps its last operation.
\<close>

theorem RemoveInverseOps_cursor_scan_witness:
  "length [1, 2, - 2, - 1 :: int] < 2 ^ 31
   \<and> InversePairCancellation (sameTypeAndInverse signed_ops) [1, 2, - 2, - 1] 0 0 () = ([], 2, ())
   \<and> RemoveInverseOps signed_ops [1, 2, - 2, - 1] () = Inr ([], 2, ())
   \<and> length [1, - 1, - 2, 2, 1 :: int] < 2 ^ 31
   \<and> InversePairCancellation (sameTypeAndInverse signed_ops) [1, - 1, - 2, 2, 1] 0 0 () = ([1], 2, ())
   \<and> RemoveInverseOps signed_ops [1, - 1, - 2, 2, 1] () = Inr ([1], 2, ())"
proof -
  have h1: "length [1, 2, - 2, - 1 :: int] < 2 ^ 31" by simp
  have m1: "InversePairCancellation (sameTypeAndInverse signed_ops) [1, 2, - 2, - 1] 0 0 () = ([], 2, ())"
    by code_simp
  have h2: "length [1, - 1, - 2, 2, 1 :: int] < 2 ^ 31" by simp
  have m2: "InversePairCancellation (sameTypeAndInverse signed_ops) [1, - 1, - 2, 2, 1] 0 0 () = ([1], 2, ())"
    by code_simp
  from RemoveInverseOps_cursor_scan [OF h1, of signed_ops "()"] m1
  have r1: "RemoveInverseOps signed_ops [1, 2, - 2, - 1] () = Inr ([], 2, ())" by simp
  from RemoveInverseOps_cursor_scan [OF h2, of signed_ops "()"] m2
  have r2: "RemoveInverseOps signed_ops [1, - 1, - 2, 2, 1] () = Inr ([1], 2, ())" by simp
  from h1 m1 r1 h2 m2 r2 show ?thesis by blast
qed

text \<open>
  C7. On a chain of at most one operation \<^verbatim>\<open>RemoveInverseOps\<close> evaluates its loop
  condition once, with the cursor at 0, and returns 0 with the chain unchanged and
  without asking any operation anything (the state of the operations is untouched).
  On every chain it returns without a read outside the chain, and every value the
  cursor takes is at least 0. On the empty chain the bound \<^verbatim>\<open>size()-1\<close>, computed
  in the unsigned \<^verbatim>\<open>size_type\<close> and cast to \<^verbatim>\<open>int\<close>, is \<open>-1\<close>, so the loop is not
  entered.
\<close>

theorem RemoveInverseOps_cursor_safe:
  "(length opVec \<le> 1 \<longrightarrow>
      RemoveInverseOps C opVec s = Inr (opVec, 0, s) \<and> RemoveInverseOps_cursors C opVec 0 s = [0])
   \<and> (\<exists>v' n s'. RemoveInverseOps C opVec s = Inr (v', n, s'))
   \<and> (\<forall>i \<in> set (RemoveInverseOps_cursors C opVec 0 s). 0 \<le> i)
   \<and> size_minus_one ([] :: 'op list) = - 1"
proof (intro conjI impI)
  assume "length opVec \<le> 1"
  with size_minus_one_le [of opVec] have g: "\<not> 0 < size_minus_one opVec" by simp
  then show "RemoveInverseOps C opVec s = Inr (opVec, 0, s)"
    by (simp add: RemoveInverseOps_def RemoveInverseOps_loop.simps)
  from g show "RemoveInverseOps_cursors C opVec 0 s = [0]"
    by (simp add: RemoveInverseOps_cursors.simps)
next
  show "\<exists>v' n s'. RemoveInverseOps C opVec s = Inr (v', n, s')"
    using RemoveInverseOps_Inr [of C opVec s] by blast
  show "\<forall>i \<in> set (RemoveInverseOps_cursors C opVec 0 s). 0 \<le> i"
    using RemoveInverseOps_cursors_bound [of 0 C opVec s] by simp
  show "size_minus_one ([] :: 'op list) = - 1"
    by (rule size_minus_one_Nil)
qed

theorem RemoveInverseOps_cursor_safe_witness:
  "length [7 :: int] \<le> 1
   \<and> RemoveInverseOps signed_ops [7] () = Inr ([7], 0, ())
   \<and> RemoveInverseOps_cursors signed_ops [7] 0 () = [0]
   \<and> RemoveInverseOps_cursors signed_ops [1, 2, - 2, - 1, 5] 0 () = [0, 1, 0, 0]
   \<and> RemoveInverseOps signed_ops [1, 2, - 2, - 1, 5] () = Inr ([5], 2, ())"
proof -
  have h: "length [7 :: int] \<le> 1" by simp
  have a: "RemoveInverseOps signed_ops [7] () = Inr ([7], 0, ())
      \<and> RemoveInverseOps_cursors signed_ops [7] 0 () = [0]"
    using RemoveInverseOps_cursor_safe [where opVec = "[7 :: int]" and C = signed_ops and s = "()"] h
    by blast
  have b: "RemoveInverseOps_cursors signed_ops [1, 2, - 2, - 1, 5] 0 () = [0, 1, 0, 0]"
    by code_simp
  have c: "RemoveInverseOps signed_ops [1, 2, - 2, - 1, 5] () = Inr ([5], 2, ())"
    by code_simp
  from h a b c show ?thesis by blast
qed

text \<open>
  C8, as the claim words it: a chain with no eliminable operations is returned as it
  was. In the words of the specification an inverse pair is mutual, and the code asks
  one way only: the chain \<open>[1, 2]\<close> of \<open>asymmetric_ops\<close> holds no identity and no pair
  in which each operation is the inverse of the other, and \<^verbatim>\<open>OptimizeOpVec\<close> removes
  both operations.
\<close>

theorem OptimizeOpVec_removes_one_way_pair:
  "no_eliminable_mutual asymmetric_ops [1, 2]
   \<and> OptimizeOpVec asymmetric_ops False [1, 2] () = Inr ([], [], ())"
proof
  show "no_eliminable_mutual asymmetric_ops [1, 2]"
    by (simp add: no_eliminable_mutual_def asymmetric_ops_def pure_ops_def
        sameTypeAndMutuallyInverse_def)
  show "OptimizeOpVec asymmetric_ops False [1, 2] () = Inr ([], [], ())"
    by code_simp
qed

text \<open>
  C8, amended. \<^verbatim>\<open>OptimizeOpVec\<close> returns a chain that is a subsequence of the chain
  it was given (operations are only deleted, never reordered, duplicated or replaced),
  so the chain does not get longer; and a chain in which no operation answers true to
  \<^verbatim>\<open>isNoOp\<close> and no operation answers true to both \<^verbatim>\<open>isSameType\<close> and
  \<^verbatim>\<open>isInverse\<close> of its successor is returned as it was.
\<close>

theorem OptimizeOpVec_only_deletes:
  "\<exists>ops' log s'. OptimizeOpVec C debug ops s = Inr (ops', log, s')
      \<and> subseq ops' ops \<and> length ops' \<le> length ops
      \<and> (no_eliminable C ops \<longrightarrow> ops' = ops)"
proof (cases "ops = []")
  case True
  then show ?thesis by (simp add: OptimizeOpVec_def)
next
  case False
  obtain ops' tn ti p s' where l: "OptimizeOpVec_loop C ops 0 0 0 s = Inr (ops', tn, ti, p, s')"
      and sub: "subseq ops' ops"
    using OptimizeOpVec_loop_Inr [of C ops 0 0 0 s] by blast
  have "no_eliminable C ops \<longrightarrow> ops' = ops"
    using OptimizeOpVec_loop_none [of C ops s] l by auto
  moreover from sub have "length ops' \<le> length ops" by (rule subseq_length)
  moreover from l False have "\<exists>log. OptimizeOpVec C debug ops s = Inr (ops', log, s')"
    by (simp add: OptimizeOpVec_def Let_def)
  ultimately show ?thesis using sub by blast
qed

theorem OptimizeOpVec_only_deletes_witness:
  "no_eliminable signed_ops [1, 2, 3]
   \<and> (\<exists>log s'. OptimizeOpVec signed_ops True [1, 2, 3] () = Inr ([1, 2, 3], log, s'))
   \<and> OptimizeOpVec signed_ops False [0, 1, 2, - 2, 0, - 1, 5] () = Inr ([5], [], ())
   \<and> subseq [5] [0, 1, 2, - 2, 0, - 1, 5 :: int]"
proof -
  have h: "no_eliminable signed_ops [1, 2, 3]"
    by (simp add: no_eliminable_def signed_ops_def pure_ops_def sameTypeAndInverse_def)
  from OptimizeOpVec_only_deletes [of signed_ops True "[1, 2, 3]" "()"] h
  have a: "\<exists>log s'. OptimizeOpVec signed_ops True [1, 2, 3] () = Inr ([1, 2, 3], log, s')"
    by blast
  have b: "OptimizeOpVec signed_ops False [0, 1, 2, - 2, 0, - 1, 5] () = Inr ([5], [], ())"
    by code_simp
  from OptimizeOpVec_only_deletes [of signed_ops False "[0, 1, 2, - 2, 0, - 1, 5]" "()"] b
  have c: "subseq [5] [0, 1, 2, - 2, 0, - 1, 5 :: int]" by simp
  from h a b c show ?thesis by blast
qed

text \<open>
  C9, as the claim words it: when a run of \<^verbatim>\<open>OptimizeOpVec\<close> ends with a round
  that removes nothing, a second run on the chain it left removes nothing. The second
  run asks the operations again. An operation of \<open>late_ops\<close> answers false to the first
  identity query and true afterwards: the first run on \<open>[7]\<close> removes nothing in its
  first round and leaves \<open>[7]\<close>, the second run removes the operation.
\<close>

theorem OptimizeOpVec_second_run_late_ops:
  "OptimizeOpVec late_ops True [7] 0 =
     Inr ([7], [OptimizingOpVec, Serialized [7], Optimized 1 1 0 0 0 [7]], 1)
   \<and> OptimizeOpVec late_ops True [7] 1 =
     Inr ([], [OptimizingOpVec, Serialized [7], Optimized 1 0 1 1 0 []], 2)"
  by code_simp

text \<open>
  C9, amended. When the three queries are functions of the operations alone, the pass
  loop of \<^verbatim>\<open>OptimizeOpVec\<close> ends after at most one round that removes something, by a
  round that removes nothing, and a second run on the chain it left removes nothing:
  the chain is unchanged, both totals are 0, no round removes anything, and the summary
  (when debug logging is enabled) reports equal sizes and zero counts.
\<close>

theorem OptimizeOpVec_idempotent_pure:
  assumes "OptimizeOpVec (pure_ops noop same inver) debug ops s = Inr (ops', log, s')"
  shows "s' = s
    \<and> (\<exists>tn ti passes.
          OptimizeOpVec_loop (pure_ops noop same inver) ops 0 0 0 s = Inr (ops', tn, ti, passes, s)
          \<and> passes \<le> 1)
    \<and> OptimizeOpVec_loop (pure_ops noop same inver) ops' 0 0 0 s = Inr (ops', 0, 0, 0, s)
    \<and> OptimizeOpVec (pure_ops noop same inver) debug' ops' s =
        Inr (ops',
             if debug' \<and> ops' \<noteq> []
             then [OptimizingOpVec, Serialized ops',
                   Optimized (length ops') (length ops') 0 0 0 ops']
             else [],
             s)"
proof -
  let ?P = "pure_ops noop same inver :: ('a, 'b) OpInterface"
  obtain v tn ti p where l: "OptimizeOpVec_loop ?P ops 0 0 0 s = Inr (v, tn, ti, p, s)"
      and p: "p \<le> 1"
      and f: "RemoveNoOps ?P v s = Inr (v, 0, s)" "RemoveInverseOps ?P v s = Inr (v, 0, s)"
    using OptimizeOpVec_loop_pure [of noop same inver ops s] by blast
  have e: "ops' = v \<and> s' = s"
  proof (cases "ops = []")
    case True
    with assms have "ops' = []" "s' = s" by (simp_all add: OptimizeOpVec_def)
    moreover from True l have "v = []"
      using OptimizeOpVec_loop_Inr [of ?P ops 0 0 0 s] by auto
    ultimately show ?thesis by simp
  next
    case False
    with assms l show ?thesis by (simp add: OptimizeOpVec_def Let_def)
  qed
  have again: "OptimizeOpVec_loop ?P v 0 0 0 s = Inr (v, 0, 0, 0, s)"
    using OptimizeOpVec_loop_fixed [OF f, of 0 0 0] by (simp add: MAX_OPTIMIZATION_PASSES_def)
  then have "OptimizeOpVec ?P debug' v s =
        Inr (v, if debug' \<and> v \<noteq> []
                then [OptimizingOpVec, Serialized v, Optimized (length v) (length v) 0 0 0 v]
                else [], s)"
    by (simp add: OptimizeOpVec_def Let_def MAX_OPTIMIZATION_PASSES_def)
  with e l p again show ?thesis by auto
qed

theorem OptimizeOpVec_idempotent_pure_witness:
  "OptimizeOpVec signed_ops True [0, 1, 2, - 2, 0, - 1, 5] () =
     Inr ([5], [OptimizingOpVec, Serialized [0, 1, 2, - 2, 0, - 1, 5], Optimized 7 1 1 2 2 [5]], ())
   \<and> OptimizeOpVec signed_ops True [5] () =
     Inr ([5], [OptimizingOpVec, Serialized [5], Optimized 1 1 0 0 0 [5]], ())
   \<and> OptimizeOpVec_loop signed_ops [5] 0 0 0 () = Inr ([5], 0, 0, 0, ())"
proof -
  have h: "OptimizeOpVec signed_ops True [0, 1, 2, - 2, 0, - 1, 5] () =
     Inr ([5], [OptimizingOpVec, Serialized [0, 1, 2, - 2, 0, - 1, 5], Optimized 7 1 1 2 2 [5]], ())"
    by code_simp
  from OptimizeOpVec_idempotent_pure [OF h [unfolded signed_ops_def], of True] h
  show ?thesis by (simp add: signed_ops_def)
qed

text \<open>
  C10. A call of \<^verbatim>\<open>RemoveNoOps\<close> shortens the chain by the count it returns, a call
  of \<^verbatim>\<open>RemoveInverseOps\<close> by twice the count it returns. After the pass loop the
  length of the chain is the original length minus \<^verbatim>\<open>total_noops\<close> minus twice
  \<^verbatim>\<open>total_inverseops\<close>, and these are the sizes and totals the summary message of
  \<^verbatim>\<open>OptimizeOpVec\<close> prints. The counts of \<^verbatim>\<open>RemoveNoOps\<close> and the totals are
  taken on chains of fewer than \<open>2 ^ 31\<close> operations, where they lie between 0 and the
  length of the chain and so within an \<^verbatim>\<open>int\<close>.
\<close>

theorem removal_counts_match_lengths:
  "(length opVec < 2 ^ 31 \<and> RemoveNoOps C opVec s = Inr (v1, noops, s1) \<longrightarrow>
      0 \<le> noops \<and> noops < 2 ^ 31 \<and> int (length v1) = int (length opVec) - noops)
   \<and> (RemoveInverseOps C opVec s = Inr (v2, inverseops, s2) \<longrightarrow>
      int (length v2) = int (length opVec) - 2 * inverseops)
   \<and> (length opVec < 2 ^ 31 \<and>
       OptimizeOpVec_loop C opVec 0 0 0 s = Inr (ops', total_noops, total_inverseops, passes, s') \<longrightarrow>
      0 \<le> total_noops \<and> total_noops < 2 ^ 31 \<and>
      0 \<le> total_inverseops \<and> total_inverseops < 2 ^ 31 \<and>
      int (length ops') = int (length opVec) - total_noops - 2 * total_inverseops)
   \<and> (length opVec < 2 ^ 31 \<and> opVec \<noteq> [] \<and>
       OptimizeOpVec C True opVec s = Inr (ops'', log, s'') \<longrightarrow>
      (\<exists>p tn ti. last log = Optimized (length opVec) (length ops'') p tn ti ops''
         \<and> 0 \<le> tn \<and> tn < 2 ^ 31 \<and> 0 \<le> ti \<and> ti < 2 ^ 31
         \<and> int (length ops'') = int (length opVec) - tn - 2 * ti))"
proof -
  have A: "length opVec < 2 ^ 31 \<and> RemoveNoOps C opVec s = Inr (v1, noops, s1) \<longrightarrow>
      0 \<le> noops \<and> noops < 2 ^ 31 \<and> int (length v1) = int (length opVec) - noops"
  proof (rule impI)
    assume a: "length opVec < 2 ^ 31 \<and> RemoveNoOps C opVec s = Inr (v1, noops, s1)"
    then have b: "int (length opVec) < 2 ^ 31" by (intro int_length_bound) simp
    from a have "0 \<le> noops \<and> int (length v1) = int (length opVec) - noops"
      using RemoveNoOps_Inr [of C opVec s] by auto
    with b show "0 \<le> noops \<and> noops < 2 ^ 31 \<and> int (length v1) = int (length opVec) - noops"
      by auto
  qed
  have B: "RemoveInverseOps C opVec s = Inr (v2, inverseops, s2) \<longrightarrow>
      int (length v2) = int (length opVec) - 2 * inverseops"
    using RemoveInverseOps_Inr [of C opVec s] by auto
  have D: "length opVec < 2 ^ 31 \<and>
       OptimizeOpVec_loop C opVec 0 0 0 s = Inr (ops', total_noops, total_inverseops, passes, s') \<longrightarrow>
      0 \<le> total_noops \<and> total_noops < 2 ^ 31 \<and>
      0 \<le> total_inverseops \<and> total_inverseops < 2 ^ 31 \<and>
      int (length ops') = int (length opVec) - total_noops - 2 * total_inverseops"
  proof (rule impI)
    assume a: "length opVec < 2 ^ 31 \<and>
      OptimizeOpVec_loop C opVec 0 0 0 s = Inr (ops', total_noops, total_inverseops, passes, s')"
    then have b: "int (length opVec) < 2 ^ 31" by (intro int_length_bound) simp
    from a have "0 \<le> total_noops \<and> 0 \<le> total_inverseops \<and>
        int (length ops') = int (length opVec) - total_noops - 2 * total_inverseops"
      using OptimizeOpVec_loop_Inr [of C opVec 0 0 0 s] by auto
    with b show "0 \<le> total_noops \<and> total_noops < 2 ^ 31 \<and>
        0 \<le> total_inverseops \<and> total_inverseops < 2 ^ 31 \<and>
        int (length ops') = int (length opVec) - total_noops - 2 * total_inverseops"
      by auto
  qed
  have E: "length opVec < 2 ^ 31 \<and> opVec \<noteq> [] \<and>
       OptimizeOpVec C True opVec s = Inr (ops'', log, s'') \<longrightarrow>
      (\<exists>p tn ti. last log = Optimized (length opVec) (length ops'') p tn ti ops''
         \<and> 0 \<le> tn \<and> tn < 2 ^ 31 \<and> 0 \<le> ti \<and> ti < 2 ^ 31
         \<and> int (length ops'') = int (length opVec) - tn - 2 * ti)"
  proof (rule impI)
    assume a: "length opVec < 2 ^ 31 \<and> opVec \<noteq> [] \<and>
      OptimizeOpVec C True opVec s = Inr (ops'', log, s'')"
    then have b: "int (length opVec) < 2 ^ 31" by (intro int_length_bound) simp
    obtain v tn ti p t where l: "OptimizeOpVec_loop C opVec 0 0 0 s = Inr (v, tn, ti, p, t)"
        and len: "int (length v) = int (length opVec) - (tn - 0) - 2 * (ti - 0)"
        and pos: "0 \<le> tn" "0 \<le> ti"
      using OptimizeOpVec_loop_Inr [of C opVec 0 0 0 s] by blast
    from a l have e: "ops'' = v" "last log = Optimized (length opVec) (length v) p tn ti v"
      by (auto simp: OptimizeOpVec_def Let_def)
    have v0: "0 \<le> int (length v)" by simp
    from len pos b v0 have "tn < 2 ^ 31" by simp
    moreover from len pos b v0 have "ti < 2 ^ 31" by simp
    ultimately have "tn < 2 ^ 31 \<and> ti < 2 ^ 31" ..
    with e len pos
    show "\<exists>p tn ti. last log = Optimized (length opVec) (length ops'') p tn ti ops''
           \<and> 0 \<le> tn \<and> tn < 2 ^ 31 \<and> 0 \<le> ti \<and> ti < 2 ^ 31
           \<and> int (length ops'') = int (length opVec) - tn - 2 * ti"
      by auto
  qed
  from A B D E show ?thesis by (intro conjI)
qed

theorem removal_counts_match_lengths_witness:
  "length [0, 1, 2, - 2, 0, - 1, 5 :: int] < 2 ^ 31
   \<and> RemoveNoOps signed_ops [0, 1, 2, - 2, 0, - 1, 5] () = Inr ([1, 2, - 2, - 1, 5], 2, ())
   \<and> RemoveInverseOps signed_ops [1, 2, - 2, - 1, 5] () = Inr ([5], 2, ())
   \<and> OptimizeOpVec_loop signed_ops [0, 1, 2, - 2, 0, - 1, 5] 0 0 0 () = Inr ([5], 2, 2, 1, ())
   \<and> OptimizeOpVec signed_ops True [0, 1, 2, - 2, 0, - 1, 5] () =
       Inr ([5], [OptimizingOpVec, Serialized [0, 1, 2, - 2, 0, - 1, 5], Optimized 7 1 1 2 2 [5]], ())
   \<and> int (length [5 :: int]) = int (length [0, 1, 2, - 2, 0, - 1, 5 :: int]) - 2 - 2 * 2"
proof -
  have h: "length [0, 1, 2, - 2, 0, - 1, 5 :: int] < 2 ^ 31" by simp
  have a: "RemoveNoOps signed_ops [0, 1, 2, - 2, 0, - 1, 5] () = Inr ([1, 2, - 2, - 1, 5], 2, ())"
    by code_simp
  have b: "RemoveInverseOps signed_ops [1, 2, - 2, - 1, 5] () = Inr ([5], 2, ())"
    by code_simp
  have c: "OptimizeOpVec_loop signed_ops [0, 1, 2, - 2, 0, - 1, 5] 0 0 0 () = Inr ([5], 2, 2, 1, ())"
    by code_simp
  have d: "OptimizeOpVec signed_ops True [0, 1, 2, - 2, 0, - 1, 5] () =
       Inr ([5], [OptimizingOpVec, Serialized [0, 1, 2, - 2, 0, - 1, 5], Optimized 7 1 1 2 2 [5]], ())"
    by code_simp
  from removal_counts_match_lengths [where C = signed_ops and opVec = "[0, 1, 2, - 2, 0, - 1, 5]"
      and s = "()" and ops' = "[5]" and total_noops = 2 and total_inverseops = 2 and passes = 1
      and s' = "()"] h c
  have "int (length [5 :: int]) = int (length [0, 1, 2, - 2, 0, - 1, 5 :: int]) - 2 - 2 * 2"
    by blast
  with h a b c d show ?thesis by blast
qed

end
